theory Spec2Isabelle
  imports Main "HOL-Library.Sublist" "HOL-Library.AList"
begin

section \<open>Log fan-out: the ring buffer and the collector loop of LogService\<close>

text \<open>
  \<^verbatim>\<open>self.buffer = deque(maxlen=1000)\<close>: a Python deque with a maximum length. Appending to
  a full deque discards one item from the opposite (left) end. The deque carries its
  own bound, so the bound is a field of the value.
\<close>

record 'a deque =
  maxlen :: nat
  items :: "'a list"

definition deque_new :: "nat \<Rightarrow> 'a deque" where
  "deque_new n = \<lparr>maxlen = n, items = []\<rparr>"

definition deque_append :: "'a deque \<Rightarrow> 'a \<Rightarrow> 'a deque" where
  "deque_append d x =
     (let xs = items d @ [x]
      in d\<lparr>items := (if maxlen d < length xs then tl xs else xs)\<rparr>)"

text \<open>
  A subscriber is a \<^verbatim>\<open>Callable\<close> awaited on every entry. What it does is outside
  LogService: it acts on some world \<open>'w\<close> (the client connections). Awaiting it ends by
  a return or by an exception, each with the world it leaves behind, or it never ends.
  The dictionary \<^verbatim>\<open>self.subscribers\<close> keeps insertion order, which is the order of
  \<^verbatim>\<open>.values()\<close>, so it is an association list.
\<close>

datatype 'w awaited = Returns 'w | Raises 'w | Blocks

type_synonym sub_id = string

type_synonym ('r, 'w) callback = "'r \<Rightarrow> 'w \<Rightarrow> 'w awaited"

type_synonym ('r, 'w) subscriber_dict = "(sub_id \<times> ('r, 'w) callback) list"

record ('r, 'w) log_service =
  buffer :: "'r deque"
  subscribers :: "('r, 'w) subscriber_dict"

definition log_service_init :: "('r, 'w) log_service" where
  "log_service_init = \<lparr>buffer = deque_new 1000, subscribers = []\<rparr>"

text \<open>
  \<^verbatim>\<open>subscribe\<close> stores the callback under a new id (\<^verbatim>\<open>str(uuid.uuid4())\<close>, here the
  argument \<open>new_id\<close>) and returns the id. \<^verbatim>\<open>unsubscribe\<close> is \<^verbatim>\<open>pop(sub_id, None)\<close>.
\<close>

definition subscribe ::
  "('r, 'w) log_service \<Rightarrow> sub_id \<Rightarrow> ('r, 'w) callback \<Rightarrow> sub_id \<times> ('r, 'w) log_service" where
  "subscribe svc new_id cb =
     (new_id, svc\<lparr>subscribers := AList.update new_id cb (subscribers svc)\<rparr>)"

definition unsubscribe :: "('r, 'w) log_service \<Rightarrow> sub_id \<Rightarrow> ('r, 'w) log_service" where
  "unsubscribe svc sid = svc\<lparr>subscribers := AList.delete sid (subscribers svc)\<rparr>"

text \<open>
  While the collector is suspended in \<^verbatim>\<open>await callback(log_entry)\<close> other coroutines
  run, and they may call \<^verbatim>\<open>subscribe\<close> and \<^verbatim>\<open>unsubscribe\<close> (the handlers of
  \<^verbatim>\<open>logs_websocket\<close> do). The interference says which calls are made during the await of
  the callback of a subscription on an entry.
\<close>

datatype ('r, 'w) dict_call = Subscribe sub_id "('r, 'w) callback" | Unsubscribe sub_id

type_synonym ('r, 'w) interference = "'r \<Rightarrow> sub_id \<Rightarrow> ('r, 'w) dict_call list"

definition no_interference :: "('r, 'w) interference" where
  "no_interference = (\<lambda>r sid. [])"

text \<open>
  \<^verbatim>\<open>for callback in self.subscribers.values()\<close> iterates over the live dictionary. The
  iterator remembers the size of the dictionary at its creation (\<open>used\<close>) and how many
  items it still expects (\<open>len\<close>), and it has a position in the table of entries; the
  model keeps the items at or after that position (\<open>ahead\<close>). A call made during an
  await changes the dictionary and what lies ahead: a new key is appended to the table,
  the value of a present key is replaced in place, a removed key leaves both. (The
  table is taken not to be compacted while the loop runs.)
\<close>

fun dict_call_effect ::
  "('r, 'w) subscriber_dict \<times> ('r, 'w) subscriber_dict \<Rightarrow> ('r, 'w) dict_call \<Rightarrow>
   ('r, 'w) subscriber_dict \<times> ('r, 'w) subscriber_dict" where
  "dict_call_effect (d, ahead) (Subscribe k cb) =
     (AList.update k cb d,
      if map_of d k = None then ahead @ [(k, cb)]
      else map (\<lambda>e. if fst e = k then (k, cb) else e) ahead)"
| "dict_call_effect (d, ahead) (Unsubscribe k) = (AList.delete k d, AList.delete k ahead)"

text \<open>How the \<^verbatim>\<open>for\<close> loop over the callbacks ends: the iterator is exhausted, the
  iterator raises RuntimeError, or an awaited callback never completes.\<close>

datatype loop_end = Completed | Aborted | Stalled

text \<open>
  The inner loop of \<^verbatim>\<open>_collect_logs\<close>:
  \<^verbatim>\<open>for callback in self.subscribers.values():
      try: await callback(log_entry)
      except: pass\<close>
  Each step of the iterator first compares the size of the dictionary with \<open>used\<close> and
  raises RuntimeError (dictionary changed size during iteration) when they differ;
  then it ends when nothing is ahead, raises RuntimeError (dictionary keys changed
  during iteration) when it finds an item but expects none, and yields the item
  otherwise. The RuntimeError is raised by the \<^verbatim>\<open>for\<close> statement, outside the
  \<^verbatim>\<open>try\<close>. An exception of the awaited callback is swallowed, and the loop goes on
  from the world the callback left.
\<close>

fun deliver ::
  "nat \<Rightarrow> nat \<Rightarrow> 'r \<Rightarrow> ('r, 'w) interference \<Rightarrow> ('r, 'w) subscriber_dict \<Rightarrow>
   ('r, 'w) subscriber_dict \<Rightarrow> 'w \<Rightarrow> loop_end \<times> ('r, 'w) subscriber_dict \<times> 'w" where
  "deliver 0 used r env d ahead w =
     (if length d \<noteq> used then (Aborted, d, w)
      else (case ahead of [] \<Rightarrow> (Completed, d, w) | e # rest \<Rightarrow> (Aborted, d, w)))"
| "deliver (Suc len) used r env d ahead w =
     (if length d \<noteq> used then (Aborted, d, w)
      else (case ahead of
              [] \<Rightarrow> (Completed, d, w)
            | e # rest \<Rightarrow>
                (case snd e r w of
                   Blocks \<Rightarrow> (Stalled, d, w)
                 | Returns w' \<Rightarrow>
                     (case foldl dict_call_effect (d, rest) (env r (fst e)) of
                        (d', ahead') \<Rightarrow> deliver len used r env d' ahead' w')
                 | Raises w' \<Rightarrow>
                     (case foldl dict_call_effect (d, rest) (env r (fst e)) of
                        (d', ahead') \<Rightarrow> deliver len used r env d' ahead' w'))))"

definition notify ::
  "('r, 'w) subscriber_dict \<Rightarrow> 'r \<Rightarrow> ('r, 'w) interference \<Rightarrow> 'w \<Rightarrow>
   loop_end \<times> ('r, 'w) subscriber_dict \<times> 'w" where
  "notify d r env w = deliver (length d) (length d) r env d d w"

text \<open>
  \<^verbatim>\<open>async for log_entry in self.conn.ros2_topic_echo_stream("/rosout")\<close>, over the entries
  the stream has produced so far: each entry is appended to the buffer and then
  delivered. The collector stops at the entry whose delivery raises RuntimeError or
  never completes. The result tells the service and the world it has come to, how many
  entries it has appended (\<open>consumed\<close>) and how it stands.
\<close>

record ('r, 'w) collected =
  service :: "('r, 'w) log_service"
  world :: 'w
  consumed :: nat
  ended :: loop_end

fun collect_logs ::
  "('r, 'w) interference \<Rightarrow> ('r, 'w) log_service \<Rightarrow> 'r list \<Rightarrow> 'w \<Rightarrow> ('r, 'w) collected" where
  "collect_logs env svc [] w = \<lparr>service = svc, world = w, consumed = 0, ended = Completed\<rparr>"
| "collect_logs env svc (r # rs) w =
     (case notify (subscribers svc) r env w of
        (e, d, w') \<Rightarrow>
          (let svc' = svc\<lparr>buffer := deque_append (buffer svc) r, subscribers := d\<rparr>
           in if e = Completed
              then (let res = collect_logs env svc' rs w' in res\<lparr>consumed := Suc (consumed res)\<rparr>)
              else \<lparr>service = svc', world = w', consumed = 1, ended = e\<rparr>))"

text \<open>
  \<^verbatim>\<open>list(self.buffer)[-count:]\<close>. For a positive \<open>count\<close> the slice starts \<open>count\<close> items
  before the end (or at the start of a shorter list). For \<open>count = 0\<close> the slice is
  \<^verbatim>\<open>[0:]\<close>, the whole list, and for a negative \<open>count\<close> it starts at index \<open>-count\<close>.
\<close>

definition get_recent :: "('r, 'w) log_service \<Rightarrow> int \<Rightarrow> 'r list" where
  "get_recent svc count =
     (let xs = items (buffer svc)
      in if 0 < count then drop (length xs - nat count) xs else drop (nat (- count)) xs)"

section \<open>Toast notifications: NotificationProvider\<close>

definition MAX_NOTIFICATIONS :: nat where
  "MAX_NOTIFICATIONS = 5"

record 'a notification =
  nid :: string
  timestamp :: int
  severity :: string
  payload :: 'a

text \<open>
  The provider's state: the list held by \<^verbatim>\<open>useState\<close> and the ids that have a timer in
  \<^verbatim>\<open>timersRef.current\<close> (a timer handle of \<^verbatim>\<open>setTimeout\<close> is truthy, so only the keys
  matter).
\<close>

record 'a provider =
  notifications :: "'a notification list"
  timers :: "string set"

definition provider_init :: "'a provider" where
  "provider_init = \<lparr>notifications = [], timers = {}\<rparr>"

text \<open>
  \<^verbatim>\<open>while (updated.length >= MAX_NOTIFICATIONS) {
      const oldest = updated[0]; ... clearTimeout(timer); timersRef.current.delete(oldest.id);
      updated = updated.slice(1); }\<close>
\<close>

function evict :: "'a notification list \<Rightarrow> string set \<Rightarrow> 'a notification list \<times> string set" where
  "evict updated tm =
     (if MAX_NOTIFICATIONS \<le> length updated
      then evict (drop 1 updated) (tm - {nid (hd updated)})
      else (updated, tm))"
  by pat_completeness auto
termination
  by (relation "measure (\<lambda>(updated, tm). length updated)") (auto simp: MAX_NOTIFICATIONS_def)

declare evict.simps [simp del]

definition addNotification :: "'a provider \<Rightarrow> 'a notification \<Rightarrow> 'a provider" where
  "addNotification s n =
     (case evict (notifications s) (timers s) of
        (updated, tm) \<Rightarrow> \<lparr>notifications = updated @ [n], timers = insert (nid n) tm\<rparr>)"

definition removeNotification :: "'a provider \<Rightarrow> string \<Rightarrow> 'a provider" where
  "removeNotification s i =
     \<lparr>notifications = filter (\<lambda>n. nid n \<noteq> i) (notifications s), timers = timers s - {i}\<rparr>"

datatype 'a call = Add "'a notification" | Remove string

fun apply_call :: "'a provider \<Rightarrow> 'a call \<Rightarrow> 'a provider" where
  "apply_call s (Add n) = addNotification s n"
| "apply_call s (Remove i) = removeNotification s i"

section \<open>The namespace tree of the node list: buildTree\<close>

record ros_node =
  name :: string
  node_type :: string
  status :: string

text \<open>
  A tree object \<^verbatim>\<open>{ children: {}, nodes: [], count: 0, activeCount: 0, lifecycleCount: 0 }\<close>.
  \<^verbatim>\<open>children\<close> is a plain object used as a dictionary from a name part to a subtree.
\<close>

datatype ns_tree =
  Tree (children: "(string \<times> ns_tree) list") (nodes: "ros_node list")
       (count: nat) (activeCount: nat) (lifecycleCount: nat)

definition empty_tree :: ns_tree where
  "empty_tree = Tree [] [] 0 0 0"

text \<open>\<^verbatim>\<open>node.name.split('/').filter(Boolean)\<close>: the non-empty pieces between slashes.\<close>

fun split_on :: "char \<Rightarrow> string \<Rightarrow> string list" where
  "split_on c [] = [[]]"
| "split_on c (x # xs) =
     (if x = c then [] # split_on c xs
      else (case split_on c xs of [] \<Rightarrow> [[x]] | p # ps \<Rightarrow> (x # p) # ps))"

definition parts :: "string \<Rightarrow> string list" where
  "parts nm = filter (\<lambda>p. p \<noteq> []) (split_on CHR ''/'' nm)"

text \<open>
  Reading \<^verbatim>\<open>current.children[part]\<close> on a plain object finds an own property, or else a
  property inherited from \<^verbatim>\<open>Object.prototype\<close>, or else \<^verbatim>\<open>undefined\<close>. The inherited
  values are functions (and the prototype object itself for \<^verbatim>\<open>__proto__\<close>): all truthy,
  none with a \<^verbatim>\<open>children\<close> or \<^verbatim>\<open>nodes\<close> property.
\<close>

definition object_prototype_names :: "string list" where
  "object_prototype_names =
     [''constructor'', ''hasOwnProperty'', ''isPrototypeOf'', ''propertyIsEnumerable'',
      ''toLocaleString'', ''toString'', ''valueOf'', ''__proto__'',
      ''__defineGetter__'', ''__defineSetter__'', ''__lookupGetter__'', ''__lookupSetter__'']"

datatype property = Undefined | Own ns_tree | Inherited

definition get_child :: "(string \<times> ns_tree) list \<Rightarrow> string \<Rightarrow> property" where
  "get_child chs part =
     (case map_of chs part of
        Some t \<Rightarrow> Own t
      | None \<Rightarrow> if part \<in> set object_prototype_names then Inherited else Undefined)"

datatype js_error = TypeError

text \<open>
  The walk of one node down its namespace path, creating missing levels, then
  \<^verbatim>\<open>current.nodes.push(node)\<close>. The source mutates the objects on the path; the model
  rebuilds them. When \<^verbatim>\<open>current\<close> has become an inherited value, the next read of
  \<^verbatim>\<open>current.children[part]\<close> or of \<^verbatim>\<open>current.nodes.push\<close> reads a property of
  \<^verbatim>\<open>undefined\<close> and throws a TypeError.
\<close>

fun insert_node :: "string list \<Rightarrow> ros_node \<Rightarrow> ns_tree \<Rightarrow> js_error + ns_tree" where
  "insert_node [] n (Tree ch ns c a l) = Inr (Tree ch (ns @ [n]) c a l)"
| "insert_node (part # rest) n (Tree ch ns c a l) =
     (case get_child ch part of
        Inherited \<Rightarrow> Inl TypeError
      | Undefined \<Rightarrow>
          (case insert_node rest n empty_tree of
             Inl e \<Rightarrow> Inl e
           | Inr t \<Rightarrow> Inr (Tree (AList.update part t ch) ns c a l))
      | Own t0 \<Rightarrow>
          (case insert_node rest n t0 of
             Inl e \<Rightarrow> Inl e
           | Inr t \<Rightarrow> Inr (Tree (AList.update part t ch) ns c a l)))"

text \<open>The path of a node is all its parts but the last (\<^verbatim>\<open>i < parts.length - 1\<close>).\<close>

fun insert_all :: "ros_node list \<Rightarrow> ns_tree \<Rightarrow> js_error + ns_tree" where
  "insert_all [] t = Inr t"
| "insert_all (n # ns) t =
     (case insert_node (butlast (parts (name n))) n t of
        Inl e \<Rightarrow> Inl e
      | Inr t' \<Rightarrow> insert_all ns t')"

definition is_active :: "ros_node \<Rightarrow> bool" where
  "is_active n = (status n = ''active'')"

definition is_active_lifecycle :: "ros_node \<Rightarrow> bool" where
  "is_active_lifecycle n = (node_type n = ''lifecycle'' \<and> status n = ''active'')"

text \<open>
  \<^verbatim>\<open>calcCounts\<close>: the own nodes are counted, then every child is computed and its three
  counters are added, one child of \<^verbatim>\<open>Object.values(node.children)\<close> after the other
  (the sums do not depend on the order of the children).
\<close>

fun calcCounts :: "ns_tree \<Rightarrow> ns_tree" where
  "calcCounts (Tree ch ns c a l) =
     (let ch' = map (\<lambda>kt. (fst kt, calcCounts (snd kt))) ch;
          acc = foldl (\<lambda>(c', a', l') child.
                         (c' + count child, a' + activeCount child, l' + lifecycleCount child))
                      (length ns, length (filter is_active ns),
                       length (filter is_active_lifecycle ns))
                      (map snd ch')
      in (case acc of (c', a', l') \<Rightarrow> Tree ch' ns c' a' l'))"

definition buildTree :: "ros_node list \<Rightarrow> js_error + ns_tree" where
  "buildTree ns =
     (case insert_all ns empty_tree of Inl e \<Rightarrow> Inl e | Inr t \<Rightarrow> Inr (calcCounts t))"

text \<open>What the counters are meant to count: the nodes of a subtree.\<close>

fun subtree_nodes :: "ns_tree \<Rightarrow> ros_node list" where
  "subtree_nodes (Tree ch ns c a l) = ns @ concat (map (\<lambda>kt. subtree_nodes (snd kt)) ch)"

definition counts_ok :: "ns_tree \<Rightarrow> bool" where
  "counts_ok t =
     (count t = length (subtree_nodes t) \<and>
      activeCount t = length (filter is_active (subtree_nodes t)) \<and>
      lifecycleCount t = length (filter is_active_lifecycle (subtree_nodes t)))"

fun everywhere :: "(ns_tree \<Rightarrow> bool) \<Rightarrow> ns_tree \<Rightarrow> bool" where
  "everywhere P (Tree ch ns c a l) =
     (P (Tree ch ns c a l) \<and> list_all (\<lambda>kt. everywhere P (snd kt)) ch)"

section \<open>The TTL cache: CacheService\<close>

text \<open>
  \<^verbatim>\<open>self._cache: Dict[str, tuple[Any, datetime]]\<close> is an insertion-ordered dictionary
  (it is iterated by \<^verbatim>\<open>invalidate_prefix\<close>), \<^verbatim>\<open>self._locks\<close> a dictionary of
  \<^verbatim>\<open>asyncio.Lock\<close>. A \<^verbatim>\<open>datetime\<close> is the number of microseconds (its resolution)
  since \<^verbatim>\<open>datetime.min\<close>, the start of year 1; the last one is \<^verbatim>\<open>datetime.max\<close>, the
  last microsecond of year 9999.
\<close>

type_synonym key = string

type_synonym time = int

type_synonym tid = nat

definition seconds :: "int \<Rightarrow> int" where
  "seconds n = n * 1000000"

definition DATETIME_MAX :: time where
  "DATETIME_MAX = 3652059 * 86400 * 1000000 - 1"

definition TIMEDELTA_MAX_DAYS :: int where
  "TIMEDELTA_MAX_DAYS = 999999999"

text \<open>
  \<^verbatim>\<open>datetime.now() + timedelta(seconds=ttl_seconds)\<close>: the \<^verbatim>\<open>timedelta\<close> raises
  OverflowError when its days exceed 999999999 in magnitude, and the sum raises
  OverflowError when it leaves the range of \<^verbatim>\<open>datetime\<close>. \<open>None\<close> is the OverflowError.
\<close>

definition expiry :: "time \<Rightarrow> int \<Rightarrow> time option" where
  "expiry now ttl_seconds =
     (if ttl_seconds div 86400 < - TIMEDELTA_MAX_DAYS \<or> TIMEDELTA_MAX_DAYS < ttl_seconds div 86400
      then None
      else if now + seconds ttl_seconds < 0 \<or> DATETIME_MAX < now + seconds ttl_seconds
      then None
      else Some (now + seconds ttl_seconds))"

text \<open>What the awaited \<^verbatim>\<open>fetch_fn()\<close> does in the end: it returns a value or raises.\<close>

datatype ('v, 'e) outcome = Value 'v | Failure 'e

text \<open>
  A call of \<^verbatim>\<open>get_or_fetch\<close> is a coroutine. Between two suspension points it runs
  alone (the asyncio event loop has one thread); it is suspended in
  \<^verbatim>\<open>async with self._locks[key]\<close> (waiting for the lock) or in \<^verbatim>\<open>await fetch_fn()\<close>
  (holding the lock), or it has finished: with a value, with the exception of
  \<^verbatim>\<open>fetch_fn\<close>, or with the OverflowError of the expiry computation.
\<close>

datatype ('v, 'e) pc = WaitingLock | Fetching | Returned 'v | Raised 'e | RaisedOverflowError

record ('v, 'e) task =
  task_key :: key
  task_ttl :: int
  task_pc :: "('v, 'e) pc"

text \<open>
  \<^verbatim>\<open>asyncio.Lock\<close>: the flag \<^verbatim>\<open>_locked\<close> and the queue \<^verbatim>\<open>_waiters\<close>. \<^verbatim>\<open>acquire\<close> takes a
  free lock at once when nobody waits, and otherwise queues the caller; \<^verbatim>\<open>release\<close>
  clears the flag and wakes the first waiter, which sets the flag again when it runs.
\<close>

record lock =
  locked :: bool
  waiters :: "tid list"

record ('v, 'e) cache_service =
  cache :: "(key \<times> 'v \<times> time) list"
  locks :: "key \<rightharpoonup> lock"
  tasks :: "tid \<rightharpoonup> ('v, 'e) task"
  fetch_calls :: "(tid \<times> key) list"

definition cache_service_init :: "('v, 'e) cache_service" where
  "cache_service_init = \<lparr>cache = [], locks = Map.empty, tasks = Map.empty, fetch_calls = []\<rparr>"

text \<open>
  \<^verbatim>\<open>if key in self._cache: value, expires_at = self._cache[key];
      if datetime.now() < expires_at: return value\<close>
\<close>

definition lookup_live :: "(key \<times> 'v \<times> time) list \<Rightarrow> key \<Rightarrow> time \<Rightarrow> 'v option" where
  "lookup_live c k now =
     (case map_of c k of
        None \<Rightarrow> None
      | Some (v, expires_at) \<Rightarrow> if now < expires_at then Some v else None)"

definition set_pc :: "tid \<Rightarrow> ('v, 'e) pc \<Rightarrow> ('v, 'e) cache_service \<Rightarrow> ('v, 'e) cache_service" where
  "set_pc i p s =
     (case tasks s i of
        None \<Rightarrow> s
      | Some t \<Rightarrow> s\<lparr>tasks := (tasks s)(i \<mapsto> t\<lparr>task_pc := p\<rparr>)\<rparr>)"

definition release :: "key \<Rightarrow> ('v, 'e) cache_service \<Rightarrow> ('v, 'e) cache_service" where
  "release k s =
     (case locks s k of
        None \<Rightarrow> s
      | Some l \<Rightarrow> s\<lparr>locks := (locks s)(k \<mapsto> l\<lparr>locked := False\<rparr>)\<rparr>)"

text \<open>
  The body of the \<^verbatim>\<open>async with\<close> block up to its first suspension: the second look at
  the cache, then either \<^verbatim>\<open>return value\<close> (which leaves the block and releases the
  lock) or the call of \<^verbatim>\<open>fetch_fn\<close>, recorded in \<open>fetch_calls\<close>.
\<close>

definition locked_body ::
  "tid \<Rightarrow> key \<Rightarrow> time \<Rightarrow> ('v, 'e) cache_service \<Rightarrow> ('v, 'e) cache_service" where
  "locked_body i k now s =
     (case lookup_live (cache s) k now of
        Some v \<Rightarrow> release k (set_pc i (Returned v) s)
      | None \<Rightarrow> set_pc i Fetching (s\<lparr>fetch_calls := fetch_calls s @ [(i, k)]\<rparr>))"

text \<open>
  A new coroutine \<open>i\<close> runs \<^verbatim>\<open>get_or_fetch(key, fetch_fn, ttl_seconds)\<close> from its start to
  its first suspension, at clock reading \<open>now\<close>.
\<close>

definition get_or_fetch ::
  "tid \<Rightarrow> key \<Rightarrow> int \<Rightarrow> time \<Rightarrow> ('v, 'e) cache_service \<Rightarrow> ('v, 'e) cache_service" where
  "get_or_fetch i k ttl_seconds now s =
     (case lookup_live (cache s) k now of
        Some v \<Rightarrow>
          s\<lparr>tasks := (tasks s)(i \<mapsto> \<lparr>task_key = k, task_ttl = ttl_seconds, task_pc = Returned v\<rparr>)\<rparr>
      | None \<Rightarrow>
          (let l = (case locks s k of None \<Rightarrow> \<lparr>locked = False, waiters = []\<rparr> | Some l \<Rightarrow> l);
               s' = s\<lparr>tasks := (tasks s)(i \<mapsto>
                      \<lparr>task_key = k, task_ttl = ttl_seconds, task_pc = WaitingLock\<rparr>)\<rparr>
           in if \<not> locked l \<and> waiters l = []
              then locked_body i k now (s'\<lparr>locks := (locks s)(k \<mapsto> l\<lparr>locked := True\<rparr>)\<rparr>)
              else s'\<lparr>locks := (locks s)(k \<mapsto> l\<lparr>waiters := waiters l @ [i]\<rparr>)\<rparr>))"

text \<open>
  The \<^verbatim>\<open>fetch_fn()\<close> awaited by coroutine \<open>i\<close> completes. On a value:
  \<^verbatim>\<open>self._cache[key] = (value, datetime.now() + timedelta(seconds=ttl_seconds)); return value\<close>.
  The right-hand side is computed first: when the expiry overflows, nothing is stored
  and the call ends with OverflowError. On an exception of \<^verbatim>\<open>fetch_fn\<close> the assignment
  is not reached. In every case the block is left and the lock released.
\<close>

definition fetch_done ::
  "tid \<Rightarrow> ('v, 'e) outcome \<Rightarrow> time \<Rightarrow> ('v, 'e) cache_service \<Rightarrow> ('v, 'e) cache_service" where
  "fetch_done i out now s =
     (case tasks s i of
        None \<Rightarrow> s
      | Some t \<Rightarrow>
          if task_pc t \<noteq> Fetching then s
          else (case out of
                  Value v \<Rightarrow>
                    (case expiry now (task_ttl t) of
                       None \<Rightarrow> release (task_key t) (set_pc i RaisedOverflowError s)
                     | Some expires_at \<Rightarrow>
                         release (task_key t)
                           (set_pc i (Returned v)
                              (s\<lparr>cache := AList.update (task_key t) (v, expires_at) (cache s)\<rparr>)))
                | Failure e \<Rightarrow> release (task_key t) (set_pc i (Raised e) s)))"

text \<open>
  The event loop runs the waiter that \<^verbatim>\<open>release\<close> has woken: the first of the queue of
  a lock that is free. It leaves the queue, takes the lock and enters the block.
\<close>

definition resume :: "tid \<Rightarrow> time \<Rightarrow> ('v, 'e) cache_service \<Rightarrow> ('v, 'e) cache_service" where
  "resume i now s =
     (case tasks s i of
        None \<Rightarrow> s
      | Some t \<Rightarrow>
          (case locks s (task_key t) of
             None \<Rightarrow> s
           | Some l \<Rightarrow>
               (case waiters l of
                  [] \<Rightarrow> s
                | w # ws \<Rightarrow>
                    if w = i \<and> \<not> locked l \<and> task_pc t = WaitingLock
                    then locked_body i (task_key t) now
                           (s\<lparr>locks := (locks s)(task_key t \<mapsto> \<lparr>locked = True, waiters = ws\<rparr>)\<rparr>)
                    else s)))"

text \<open>\<^verbatim>\<open>self._cache.pop(key, None)\<close>\<close>

definition invalidate :: "key \<Rightarrow> ('v, 'e) cache_service \<Rightarrow> ('v, 'e) cache_service" where
  "invalidate k s = s\<lparr>cache := AList.delete k (cache s)\<rparr>"

text \<open>
  \<^verbatim>\<open>keys_to_remove = [k for k in self._cache if k.startswith(prefix)]
  for key in keys_to_remove: self._cache.pop(key, None)\<close>
\<close>

definition invalidate_prefix :: "string \<Rightarrow> ('v, 'e) cache_service \<Rightarrow> ('v, 'e) cache_service" where
  "invalidate_prefix p s =
     (let keys_to_remove = filter (prefix p) (map fst (cache s))
      in s\<lparr>cache := foldl (\<lambda>c k. AList.delete k c) (cache s) keys_to_remove\<rparr>)"

text \<open>
  What happens to the cache service, one event after the other: a new call of
  \<^verbatim>\<open>get_or_fetch\<close>, the completion of an awaited \<^verbatim>\<open>fetch_fn\<close>, the resumption of a
  waiter, and the calls of \<^verbatim>\<open>invalidate\<close> and \<^verbatim>\<open>invalidate_prefix\<close>, which do not
  suspend. The first three carry the clock reading of \<^verbatim>\<open>datetime.now()\<close>.
\<close>

datatype ('v, 'e) event =
    Call tid key int time
  | FetchDone tid "('v, 'e) outcome" time
  | Resume tid time
  | Invalidate key
  | InvalidatePrefix string

text \<open>An event that cannot happen in the state (a task id in use, a task not at that
  point) changes nothing.\<close>

fun step :: "('v, 'e) cache_service \<Rightarrow> ('v, 'e) event \<Rightarrow> ('v, 'e) cache_service" where
  "step s (Call i k ttl_seconds now) = (if tasks s i = None then get_or_fetch i k ttl_seconds now s else s)"
| "step s (FetchDone i out now) = fetch_done i out now s"
| "step s (Resume i now) = resume i now s"
| "step s (Invalidate k) = invalidate k s"
| "step s (InvalidatePrefix p) = invalidate_prefix p s"

definition run :: "('v, 'e) cache_service \<Rightarrow> ('v, 'e) event list \<Rightarrow> ('v, 'e) cache_service" where
  "run s evs = foldl step s evs"

text \<open>
  The calls of \<^verbatim>\<open>fetch_fn\<close> made for a key.
\<close>

definition fetches_of :: "key \<Rightarrow> ('v, 'e) cache_service \<Rightarrow> (tid \<times> key) list" where
  "fetches_of k s = filter (\<lambda>c. snd c = k) (fetch_calls s)"










section \<open>Auxiliary notions for stating the properties\<close>

text \<open>The last \<open>n\<close> items of a list, in their order.\<close>

definition last_n :: "nat \<Rightarrow> 'a list \<Rightarrow> 'a list" where
  "last_n n xs = drop (length xs - n) xs"

text \<open>The world after an await that has ended (by a return or by an exception).\<close>

definition after_await :: "'w \<Rightarrow> 'w awaited \<Rightarrow> 'w" where
  "after_await w a = (case a of Returns w' \<Rightarrow> w' | Raises w' \<Rightarrow> w' | Blocks \<Rightarrow> w)"

text \<open>The world after every callback of a dictionary has been awaited once, in order,
  on an entry.\<close>

definition all_awaited :: "('r, 'w) subscriber_dict \<Rightarrow> 'r \<Rightarrow> 'w \<Rightarrow> 'w" where
  "all_awaited d r w = foldl (\<lambda>w e. after_await w (snd e r w)) w d"

text \<open>The number of nodes of a subtree that satisfy \<open>P\<close>.\<close>

definition tally :: "(ros_node \<Rightarrow> bool) \<Rightarrow> ns_tree \<Rightarrow> nat" where
  "tally P t = length (filter P (subtree_nodes t))"

section \<open>Concrete inputs\<close>

definition demo_cache :: "(nat, unit) cache_service" where
  "demo_cache = cache_service_init\<lparr>cache :=
     [(''node_info:/a'', (1, 10)), (''nodes_list'', (2, 20)), (''node_info:/b'', (3, 30))]\<rparr>"


definition failure_then_success_run :: "(nat, string) event list" where
  "failure_then_success_run =
     [Call 1 ''node_info:/a'' 10 0,
      Call 2 ''node_info:/a'' 10 1,
      FetchDone 1 (Failure ''timeout'') 2000000,
      Resume 2 2000001,
      FetchDone 2 (Value 42) 4000000]"




definition invalidated_before_resume_run :: "(nat, string) event list" where
  "invalidated_before_resume_run =
     [Call 1 ''nodes_list'' 10 0,
      Call 2 ''nodes_list'' 10 1,
      FetchDone 1 (Value 42) 2000000,
      Invalidate ''nodes_list'',
      Resume 2 2000001]"

definition overflowing_ttl_run :: "(nat, string) event list" where
  "overflowing_ttl_run =
     [Call 1 ''nodes_list'' 1000000000000 0,
      Call 2 ''nodes_list'' 10 1,
      FetchDone 1 (Value 42) 2000000,
      Resume 2 2000001]"

definition zero_ttl_run :: "(nat, string) event list" where
  "zero_ttl_run =
     [Call 1 ''nodes_list'' 0 0,
      Call 2 ''nodes_list'' 0 1,
      FetchDone 1 (Value 42) 2000000,
      Resume 2 2000001]"

definition warm_cache :: "(nat, string) cache_service" where
  "warm_cache = run cache_service_init
     [Call 1 ''nodes_list'' 5 0, FetchDone 1 (Value 7) 1000000]"

definition fetching_with_waiter :: "(nat, string) cache_service" where
  "fetching_with_waiter = run cache_service_init
     [Call 1 ''node_info:/a'' 10 0, Call 2 ''node_info:/a'' 10 1]"

text \<open>
  Callbacks over a world that lists what every sink has received: one that records
  the entry, one whose sink raises, one that returns without sending, one that never
  completes.
\<close>

definition recorder :: "sub_id \<Rightarrow> (string, (sub_id \<times> string) list) callback" where
  "recorder sid = (\<lambda>r w. Returns (w @ [(sid, r)]))"

definition broken_sink :: "(string, (sub_id \<times> string) list) callback" where
  "broken_sink = (\<lambda>r w. Raises w)"

definition quiet_sink :: "(string, (sub_id \<times> string) list) callback" where
  "quiet_sink = (\<lambda>r w. Returns w)"

definition stuck_sink :: "(string, (sub_id \<times> string) list) callback" where
  "stuck_sink = (\<lambda>r w. Blocks)"

definition service_with_broken_sink :: "(string, (sub_id \<times> string) list) log_service" where
  "service_with_broken_sink =
     \<lparr>buffer = deque_new 1000, subscribers = [(''a'', broken_sink), (''b'', recorder ''b'')]\<rparr>"

definition service_with_quiet_sink :: "(string, (sub_id \<times> string) list) log_service" where
  "service_with_quiet_sink =
     \<lparr>buffer = deque_new 1000, subscribers = [(''a'', quiet_sink), (''b'', recorder ''b'')]\<rparr>"

definition service_with_stuck_sink :: "(string, (sub_id \<times> string) list) log_service" where
  "service_with_stuck_sink =
     \<lparr>buffer = deque_new 1000, subscribers = [(''a'', stuck_sink), (''b'', recorder ''b'')]\<rparr>"

definition service_with_two_recorders :: "(string, (sub_id \<times> string) list) log_service" where
  "service_with_two_recorders =
     \<lparr>buffer = deque_new 1000, subscribers = [(''a'', recorder ''a''), (''b'', recorder ''b'')]\<rparr>"

text \<open>The connection of \<open>b\<close> closes while the callback of \<open>a\<close> is awaited on \<open>r1\<close>, and
  its handler unsubscribes.\<close>

definition b_leaves_during_r1 :: "(string, (sub_id \<times> string) list) interference" where
  "b_leaves_during_r1 = (\<lambda>r sid. if r = ''r1'' \<and> sid = ''a'' then [Unsubscribe ''b''] else [])"

definition service_after_ABCD :: "(string, (sub_id \<times> string) list) log_service" where
  "service_after_ABCD =
     service (collect_logs no_interference log_service_init [''A'', ''B'', ''C'', ''D''] [])"

definition talker :: ros_node where
  "talker = \<lparr>name = ''/constructor/talker'', node_type = ''regular'', status = ''active''\<rparr>"

definition three_nodes :: "ros_node list" where
  "three_nodes =
     [\<lparr>name = ''/sensing/lidar/top'', node_type = ''lifecycle'', status = ''active''\<rparr>,
      \<lparr>name = ''/sensing/camera'', node_type = ''regular'', status = ''inactive''\<rparr>,
      \<lparr>name = ''/planner'', node_type = ''regular'', status = ''active''\<rparr>]"

section \<open>Properties of the ring buffer\<close>

lemma deque_append_maxlen [simp]: "maxlen (deque_append d x) = maxlen d"
  by (simp add: deque_append_def Let_def)

lemma last_n_short: "length xs \<le> n \<Longrightarrow> last_n n xs = xs"
  by (simp add: last_n_def)

lemma length_last_n: "length (last_n n xs) = min n (length xs)"
  by (auto simp: last_n_def)

lemma last_n_snoc: "last_n n (last_n n xs @ [x]) = last_n n (xs @ [x])"
proof (cases "length xs \<le> n")
  case True
  then show ?thesis by (simp add: last_n_short)
next
  case False
  then have n: "n < length xs" by simp
  have "last_n n xs @ [x] = drop (length xs - n) (xs @ [x])"
    unfolding last_n_def by simp
  then have "last_n n (last_n n xs @ [x]) = drop (Suc n - n) (drop (length xs - n) (xs @ [x]))"
    using n by (simp add: last_n_def del: drop_append)
  also have "\<dots> = drop (Suc (length xs) - n) (xs @ [x])"
    using n by (simp del: drop_append add: Suc_diff_le)
  finally show ?thesis by (simp add: last_n_def del: drop_append)
qed

lemma deque_append_items:
  assumes "length (items d) \<le> maxlen d"
  shows "items (deque_append d x) = last_n (maxlen d) (items d @ [x])"
proof (cases "length (items d) = maxlen d")
  case True
  have "items (deque_append d x) = tl (items d @ [x])"
    using True by (simp add: deque_append_def Let_def)
  also have "\<dots> = drop 1 (items d @ [x])"
    by (simp only: drop_Suc One_nat_def drop_0)
  finally show ?thesis
    using True by (simp add: last_n_def del: drop_append)
next
  case False
  with assms have "length (items d) < maxlen d" by simp
  then show ?thesis
    by (simp add: deque_append_def Let_def last_n_def)
qed

lemma deque_append_length:
  "length (items d) \<le> maxlen d \<Longrightarrow> length (items (deque_append d x)) \<le> maxlen d"
  by (auto simp: deque_append_def Let_def)

lemma foldl_deque_append_maxlen [simp]: "maxlen (foldl deque_append d rs) = maxlen d"
  by (induction rs arbitrary: d) simp_all

lemma foldl_deque_append_length:
  "length (items d) \<le> maxlen d \<Longrightarrow> length (items (foldl deque_append d rs)) \<le> maxlen d"
proof (induction rs arbitrary: d)
  case Nil
  then show ?case by simp
next
  case (Cons r rs)
  have "length (items (deque_append d r)) \<le> maxlen (deque_append d r)"
    using Cons.prems by (simp add: deque_append_length)
  from Cons.IH [OF this] show ?case by simp
qed

lemma foldl_deque_append_items:
  assumes "length (items d) \<le> maxlen d"
  shows "items (foldl deque_append d rs) = last_n (maxlen d) (items d @ rs)"
proof (induction rs rule: rev_induct)
  case Nil
  with assms show ?case by (simp add: last_n_short)
next
  case (snoc r rs)
  let ?d = "foldl deque_append d rs"
  have len: "length (items ?d) \<le> maxlen ?d"
    using assms by (simp add: foldl_deque_append_length)
  have "items (foldl deque_append d (rs @ [r])) = last_n (maxlen d) (items ?d @ [r])"
    using deque_append_items [OF len] by simp
  also have "\<dots> = last_n (maxlen d) ((items d @ rs) @ [r])"
    unfolding snoc.IH by (rule last_n_snoc)
  finally show ?case by simp
qed

lemma consumed_le: "consumed (collect_logs env svc rs w) \<le> length rs"
proof (induction rs arbitrary: svc w)
  case Nil
  then show ?case by simp
next
  case (Cons r rs)
  obtain e d w' where n: "notify (subscribers svc) r env w = (e, d, w')"
    by (cases "notify (subscribers svc) r env w")
  show ?case
    using Cons.IH [of "svc\<lparr>buffer := deque_append (buffer svc) r, subscribers := d\<rparr>" w']
    by (simp add: n Let_def)
qed

lemma collect_logs_buffer:
  "buffer (service (collect_logs env svc rs w)) =
     foldl deque_append (buffer svc) (take (consumed (collect_logs env svc rs w)) rs)"
proof (induction rs arbitrary: svc w)
  case Nil
  then show ?case by simp
next
  case (Cons r rs)
  obtain e d w' where n: "notify (subscribers svc) r env w = (e, d, w')"
    by (cases "notify (subscribers svc) r env w")
  show ?case
    using Cons.IH [of "svc\<lparr>buffer := deque_append (buffer svc) r, subscribers := d\<rparr>" w']
    by (simp add: n Let_def)
qed

text \<open>
  C6: a ring buffer of capacity \<open>N\<close> that has taken \<open>N + M\<close> appends, \<open>M > 0\<close>, holds
  exactly the last \<open>N\<close> of them, oldest first, and at no point of the sequence does it
  hold more than \<open>N\<close> records. The appends are those of \<^verbatim>\<open>_collect_logs\<close>, however its
  deliveries go.
\<close>

theorem ring_buffer_keeps_last_N:
  assumes "buffer svc = deque_new N" and "consumed (collect_logs env svc rs w) = N + M" and "0 < M"
  shows "items (buffer (service (collect_logs env svc rs w))) = drop M (take (N + M) rs) \<and>
         length (items (buffer (service (collect_logs env svc rs w)))) = N \<and>
         (\<forall>k. length (items (buffer (service (collect_logs env svc (take k rs) w)))) \<le> N)"
proof -
  have start: "length (items (buffer svc)) \<le> maxlen (buffer svc)" "maxlen (buffer svc) = N"
    "items (buffer svc) = []"
    using assms(1) by (simp_all add: deque_new_def)
  have len: "N + M \<le> length rs"
    using consumed_le [of env svc rs w] assms(2) by simp
  have "items (buffer (service (collect_logs env svc rs w))) = last_n N (take (N + M) rs)"
    using foldl_deque_append_items [OF start(1), of "take (N + M) rs"] start assms(2)
    by (simp add: collect_logs_buffer)
  then have a: "items (buffer (service (collect_logs env svc rs w))) = drop M (take (N + M) rs)"
    using len by (simp add: last_n_def min_def)
  have b: "length (items (buffer (service (collect_logs env svc (take k rs) w)))) \<le> N" for k
    using foldl_deque_append_length [OF start(1)] start
    by (simp add: collect_logs_buffer)
  from a b len show ?thesis by simp
qed

theorem ring_buffer_keeps_last_N_witness:
  "consumed (collect_logs no_interference \<lparr>buffer = deque_new 2, subscribers = []\<rparr> [1, 2, 3 :: nat] ()) = 3 \<and>
   items (buffer (service (collect_logs no_interference \<lparr>buffer = deque_new 2, subscribers = []\<rparr>
     [1, 2, 3 :: nat] ()))) = [2, 3] \<and>
   length (items (buffer (service (collect_logs no_interference \<lparr>buffer = deque_new 2, subscribers = []\<rparr>
     [1, 2, 3 :: nat] ())))) = 2"
proof -
  let ?svc = "\<lparr>buffer = deque_new 2, subscribers = []\<rparr> :: (nat, unit) log_service"
  have c: "consumed (collect_logs no_interference ?svc [1, 2, 3] ()) = 2 + 1"
    by (simp add: notify_def Let_def)
  from ring_buffer_keeps_last_N [of ?svc 2 no_interference "[1, 2, 3]" "()" 1] c
  show ?thesis by simp
qed

section \<open>Properties of the notification list\<close>

lemma evict_result:
  "evict xs tm =
     (drop (Suc (length xs) - MAX_NOTIFICATIONS) xs,
      tm - nid ` set (take (Suc (length xs) - MAX_NOTIFICATIONS) xs))"
proof (induction xs tm rule: evict.induct)
  case (1 updated tm)
  show ?case
  proof (cases "MAX_NOTIFICATIONS \<le> length updated")
    case False
    then show ?thesis by (simp add: evict.simps [of updated tm])
  next
    case True
    then obtain x xs where xs: "updated = x # xs"
      by (cases updated) (auto simp: MAX_NOTIFICATIONS_def)
    have k: "Suc (length updated) - MAX_NOTIFICATIONS = Suc (Suc (length xs) - MAX_NOTIFICATIONS)"
      using True xs by (simp add: MAX_NOTIFICATIONS_def)
    have "evict updated tm = evict (drop 1 updated) (tm - {nid (hd updated)})"
      using True by (subst evict.simps) simp
    then have "evict updated tm = evict xs (tm - {nid x})"
      using xs by simp
    also have "\<dots> = (drop (Suc (length xs) - MAX_NOTIFICATIONS) xs,
        tm - {nid x} - nid ` set (take (Suc (length xs) - MAX_NOTIFICATIONS) xs))"
      using "1.IH" [OF True] xs by simp
    finally have "evict updated tm = (drop (Suc (length xs) - MAX_NOTIFICATIONS) xs,
        tm - {nid x} - nid ` set (take (Suc (length xs) - MAX_NOTIFICATIONS) xs))" .
    moreover have "drop (Suc (length updated) - MAX_NOTIFICATIONS) updated
        = drop (Suc (length xs) - MAX_NOTIFICATIONS) xs"
      unfolding k by (simp add: xs)
    moreover have "take (Suc (length updated) - MAX_NOTIFICATIONS) updated
        = x # take (Suc (length xs) - MAX_NOTIFICATIONS) xs"
      unfolding k by (simp add: xs)
    ultimately show ?thesis
      by auto
  qed
qed

lemma evict_length: "length (fst (evict xs tm)) < MAX_NOTIFICATIONS"
  by (auto simp: evict_result MAX_NOTIFICATIONS_def)

lemma apply_call_bound:
  "length (notifications s) \<le> MAX_NOTIFICATIONS \<Longrightarrow>
   length (notifications (apply_call s c)) \<le> MAX_NOTIFICATIONS"
proof (cases c)
  case (Add n)
  have "length (fst (evict (notifications s) (timers s))) < MAX_NOTIFICATIONS"
    by (rule evict_length)
  then show ?thesis
    using Add by (cases "evict (notifications s) (timers s)") (simp add: addNotification_def)
next
  case (Remove i)
  assume "length (notifications s) \<le> MAX_NOTIFICATIONS"
  moreover have "length (filter (\<lambda>n. nid n \<noteq> i) (notifications s)) \<le> length (notifications s)"
    by (rule length_filter_le)
  ultimately have "length (filter (\<lambda>n. nid n \<noteq> i) (notifications s)) \<le> MAX_NOTIFICATIONS"
    by (rule order_trans [rotated])
  then show ?thesis
    using Remove by (simp add: removeNotification_def)
qed

lemma foldl_apply_call_bound:
  "length (notifications s) \<le> MAX_NOTIFICATIONS \<Longrightarrow>
   length (notifications (foldl apply_call s cs)) \<le> MAX_NOTIFICATIONS"
  by (induction cs arbitrary: s) (simp_all add: apply_call_bound)

text \<open>
  C10: after any sequence of \<^verbatim>\<open>addNotification\<close> and \<^verbatim>\<open>removeNotification\<close> calls the
  list holds at most 5 notifications; an add first evicts the oldest ones (dropping
  their timers) until fewer than 5 remain and then appends the new one at the end.
\<close>

theorem notifications_never_exceed_max:
  "length (notifications (foldl apply_call provider_init cs)) \<le> 5 \<and>
   notifications (addNotification s n) =
     drop (Suc (length (notifications s)) - 5) (notifications s) @ [n] \<and>
   timers (addNotification s n) =
     insert (nid n) (timers s - nid ` set (take (Suc (length (notifications s)) - 5) (notifications s)))"
proof -
  have "length (notifications (foldl apply_call provider_init cs)) \<le> MAX_NOTIFICATIONS"
    by (rule foldl_apply_call_bound) (simp add: provider_init_def)
  then show ?thesis
    by (simp add: addNotification_def evict_result MAX_NOTIFICATIONS_def)
qed

section \<open>Properties of cache invalidation\<close>

lemma delete_as_filter: "AList.delete k c = filter (\<lambda>kv. fst kv \<noteq> k) c"
  by (induction c) (auto simp: AList.delete_eq)

lemma foldl_delete_as_filter:
  "foldl (\<lambda>c k. AList.delete k c) c ks = filter (\<lambda>kv. fst kv \<notin> set ks) c"
proof (induction ks arbitrary: c)
  case Nil
  then show ?case by simp
next
  case (Cons k ks)
  have "foldl (\<lambda>c k. AList.delete k c) (AList.delete k c) ks
      = filter (\<lambda>kv. fst kv \<notin> set ks) (filter (\<lambda>kv. fst kv \<noteq> k) c)"
    unfolding Cons.IH [of "AList.delete k c"] by (simp only: delete_as_filter)
  also have "\<dots> = filter (\<lambda>kv. fst kv \<notin> set (k # ks)) c"
    by (auto intro: filter_cong)
  finally show ?case by simp
qed

lemma invalidate_prefix_cache:
  "cache (invalidate_prefix p s) = filter (\<lambda>kv. \<not> prefix p (fst kv)) (cache s)"
  by (auto simp: invalidate_prefix_def Let_def foldl_delete_as_filter intro: filter_cong)

lemma map_of_filter_key:
  "map_of (filter (\<lambda>kv. P (fst kv)) c) k = (if P k then map_of c k else None)"
  by (induction c) auto

text \<open>
  C8: \<^verbatim>\<open>invalidate(key)\<close> removes the entry of \<open>key\<close> and no other, raises nothing when
  the key is absent (the state is then unchanged) and is idempotent;
  \<^verbatim>\<open>invalidate_prefix(prefix)\<close> removes exactly the keys that start with \<open>prefix\<close> and
  keeps every other entry, in order. Neither touches locks or running calls.
\<close>

theorem invalidate_frame:
  "map_of (cache (invalidate k s)) = (map_of (cache s))(k := None) \<and>
   invalidate k (invalidate k s) = invalidate k s \<and>
   (map_of (cache s) k = None \<longrightarrow> invalidate k s = s) \<and>
   cache (invalidate_prefix p s) = filter (\<lambda>kv. \<not> prefix p (fst kv)) (cache s) \<and>
   (\<forall>k'. map_of (cache (invalidate_prefix p s)) k' =
           (if prefix p k' then None else map_of (cache s) k')) \<and>
   locks (invalidate k s) = locks s \<and> tasks (invalidate k s) = tasks s \<and>
   locks (invalidate_prefix p s) = locks s \<and> tasks (invalidate_prefix p s) = tasks s"
proof -
  have a: "map_of (cache (invalidate k s)) = (map_of (cache s))(k := None)"
    by (simp add: invalidate_def delete_conv')
  have b: "invalidate k (invalidate k s) = invalidate k s"
    by (simp add: invalidate_def delete_idem)
  have c: "map_of (cache s) k = None \<longrightarrow> invalidate k s = s"
    by (simp add: invalidate_def map_of_eq_None_iff)
  have d: "map_of (cache (invalidate_prefix p s)) k' =
           (if prefix p k' then None else map_of (cache s) k')" for k'
    unfolding invalidate_prefix_cache
    using map_of_filter_key [of "\<lambda>k. \<not> prefix p k" "cache s" k'] by simp
  have e: "locks (invalidate k s) = locks s \<and> tasks (invalidate k s) = tasks s \<and>
           locks (invalidate_prefix p s) = locks s \<and> tasks (invalidate_prefix p s) = tasks s"
    by (simp add: invalidate_def invalidate_prefix_def Let_def)
  from a b c d e invalidate_prefix_cache [of p s] show ?thesis by blast
qed

theorem invalidate_frame_witness:
  "map_of (cache demo_cache) ''absent'' = None \<and> invalidate ''absent'' demo_cache = demo_cache \<and>
   cache (invalidate_prefix ''node_info:'' demo_cache) = [(''nodes_list'', (2, 20))] \<and>
   map_of (cache (invalidate ''nodes_list'' demo_cache)) ''nodes_list'' = None"
proof -
  have absent: "map_of (cache demo_cache) ''absent'' = None"
    by (simp add: demo_cache_def)
  from invalidate_frame [of "''absent''" demo_cache "''node_info:''"] absent
  have "invalidate ''absent'' demo_cache = demo_cache"
    and "cache (invalidate_prefix ''node_info:'' demo_cache)
         = filter (\<lambda>kv. \<not> prefix ''node_info:'' (fst kv)) (cache demo_cache)"
    by blast+
  moreover from invalidate_frame [of "''nodes_list''" demo_cache "''x''"]
  have "map_of (cache (invalidate ''nodes_list'' demo_cache)) ''nodes_list'' = None"
    by simp
  ultimately show ?thesis
    using absent by (simp add: demo_cache_def)
qed

section \<open>Properties of the TTL cache\<close>

lemmas machine_defs =
  run_def cache_service_init_def get_or_fetch_def lookup_live_def locked_body_def set_pc_def
  fetch_done_def release_def resume_def seconds_def expiry_def DATETIME_MAX_def
  TIMEDELTA_MAX_DAYS_def invalidate_def

lemma run_Nil [simp]: "run s [] = s"
  by (simp add: run_def)

lemma run_Cons [simp]: "run s (e # es) = run (step s e) es"
  by (simp add: run_def)

lemma run_append [simp]: "run s (es @ es') = run (run s es) es'"
  by (simp add: run_def)

lemma lookup_live_expired:
  "map_of c k = Some (v, expires_at) \<Longrightarrow> expires_at \<le> now \<Longrightarrow> lookup_live c k now = None"
  by (simp add: lookup_live_def)

lemma lookup_live_hit:
  "map_of c k = Some (v, expires_at) \<Longrightarrow> now < expires_at \<Longrightarrow> lookup_live c k now = Some v"
  by (simp add: lookup_live_def)

lemma get_or_fetch_miss:
  assumes "lookup_live (cache s) k now = None"
  shows "get_or_fetch i k ttl now s =
     (let l = (case locks s k of None \<Rightarrow> \<lparr>locked = False, waiters = []\<rparr> | Some l \<Rightarrow> l)
      in if \<not> locked l \<and> waiters l = []
         then s\<lparr>tasks := (tasks s)(i \<mapsto> \<lparr>task_key = k, task_ttl = ttl, task_pc = Fetching\<rparr>),
                 locks := (locks s)(k \<mapsto> l\<lparr>locked := True\<rparr>),
                 fetch_calls := fetch_calls s @ [(i, k)]\<rparr>
         else s\<lparr>tasks := (tasks s)(i \<mapsto> \<lparr>task_key = k, task_ttl = ttl, task_pc = WaitingLock\<rparr>),
                 locks := (locks s)(k \<mapsto> l\<lparr>waiters := waiters l @ [i]\<rparr>)\<rparr>)"
  using assms by (simp add: get_or_fetch_def Let_def locked_body_def set_pc_def)

lemma resume_miss:
  assumes "tasks s i = Some t" and "task_pc t = WaitingLock"
      and "locks s (task_key t) = Some l" and "waiters l = i # ws" and "\<not> locked l"
      and "lookup_live (cache s) (task_key t) now = None"
  shows "resume i now s =
     s\<lparr>locks := (locks s)(task_key t \<mapsto> \<lparr>locked = True, waiters = ws\<rparr>),
       fetch_calls := fetch_calls s @ [(i, task_key t)],
       tasks := (tasks s)(i \<mapsto> t\<lparr>task_pc := Fetching\<rparr>)\<rparr>"
  using assms by (simp add: resume_def locked_body_def set_pc_def)


lemma resume_not_woken:
  assumes "tasks s i = Some t" and "locks s (task_key t) = Some l"
      and "locked l \<or> waiters l = [] \<or> hd (waiters l) \<noteq> i \<or> task_pc t \<noteq> WaitingLock"
  shows "resume i now s = s"
  using assms by (auto simp: resume_def split: list.splits)

lemma fetch_done_failure:
  assumes "tasks s i = Some t" and "task_pc t = Fetching"
  shows "fetch_done i (Failure e) now s =
     (let s' = s\<lparr>tasks := (tasks s)(i \<mapsto> t\<lparr>task_pc := Raised e\<rparr>)\<rparr>
      in case locks s (task_key t) of
           None \<Rightarrow> s'
         | Some l \<Rightarrow> s'\<lparr>locks := (locks s)(task_key t \<mapsto> l\<lparr>locked := False\<rparr>)\<rparr>)"
  using assms by (simp add: fetch_done_def set_pc_def release_def split: option.splits)



text \<open>
  C4: an entry of \<open>K\<close> cached at \<open>t0\<close> with TTL \<open>T\<close> expires at \<open>t0 + T\<close>. A
  \<^verbatim>\<open>get_or_fetch\<close> of \<open>K\<close> that reads the clock at \<open>t0 + T + eps\<close>, \<open>eps > 0\<close>, never
  returns it: a new call either invokes \<^verbatim>\<open>fetch_fn\<close> itself or queues behind the holder
  of the lock of \<open>K\<close>, and a waiter that is resumed then and still finds that entry
  invokes \<^verbatim>\<open>fetch_fn\<close>.
\<close>

theorem expired_entry_not_served:
  assumes "map_of (cache s) K = Some (v, t0 + seconds T)" and "0 < eps"
  shows "(tasks s i = None \<longrightarrow>
            (map_option task_pc (tasks (step s (Call i K ttl (t0 + seconds T + eps))) i) = Some Fetching \<and>
             fetch_calls (step s (Call i K ttl (t0 + seconds T + eps))) = fetch_calls s @ [(i, K)]) \<or>
            (map_option task_pc (tasks (step s (Call i K ttl (t0 + seconds T + eps))) i) = Some WaitingLock \<and>
             (\<exists>l. locks s K = Some l \<and> (locked l \<or> waiters l \<noteq> [])))) \<and>
         (\<forall>t. tasks s i = Some t \<and> task_key t = K \<and> task_pc t = WaitingLock \<longrightarrow>
            step s (Resume i (t0 + seconds T + eps)) = s \<or>
            (map_option task_pc (tasks (step s (Resume i (t0 + seconds T + eps))) i) = Some Fetching \<and>
             fetch_calls (step s (Resume i (t0 + seconds T + eps))) = fetch_calls s @ [(i, K)]))"
proof -
  let ?now = "t0 + seconds T + eps"
  have miss: "lookup_live (cache s) K ?now = None"
    using assms by (simp add: lookup_live_def)
  have c: "tasks s i = None \<Longrightarrow>
            (map_option task_pc (tasks (step s (Call i K ttl ?now)) i) = Some Fetching \<and>
             fetch_calls (step s (Call i K ttl ?now)) = fetch_calls s @ [(i, K)]) \<or>
            (map_option task_pc (tasks (step s (Call i K ttl ?now)) i) = Some WaitingLock \<and>
             (\<exists>l. locks s K = Some l \<and> (locked l \<or> waiters l \<noteq> [])))"
    by (auto simp: get_or_fetch_miss [OF miss] Let_def split: option.splits)
  have r: "step s (Resume i ?now) = s \<or>
            (map_option task_pc (tasks (step s (Resume i ?now)) i) = Some Fetching \<and>
             fetch_calls (step s (Resume i ?now)) = fetch_calls s @ [(i, K)])"
    if t: "tasks s i = Some t" "task_key t = K" "task_pc t = WaitingLock" for t
  proof (cases "locks s K")
    case None
    then show ?thesis using t by (simp add: resume_def)
  next
    case (Some l)
    show ?thesis
    proof (cases "locked l \<or> waiters l = [] \<or> hd (waiters l) \<noteq> i")
      case True
      then have "resume i ?now s = s"
        using resume_not_woken [OF t(1), of l] Some t(2) by auto
      then show ?thesis by simp
    next
      case False
      then obtain ws where "waiters l = i # ws" "\<not> locked l"
        by (cases "waiters l") auto
      then show ?thesis
        using resume_miss [OF t(1) t(3), of l ws ?now] Some t(2) miss by simp
    qed
  qed
  from c r show ?thesis by blast
qed

theorem expired_entry_not_served_witness:
  "map_of (cache warm_cache) ''nodes_list'' = Some (7, 1000000 + seconds 5) \<and>
   map_option task_pc (tasks (step warm_cache (Call 2 ''nodes_list'' 5 (1000000 + seconds 5 + 1))) 2)
     = Some Fetching \<and>
   fetch_calls (step warm_cache (Call 2 ''nodes_list'' 5 (1000000 + seconds 5 + 1)))
     = [(1, ''nodes_list''), (2, ''nodes_list'')]"
proof -
  have entry: "map_of (cache warm_cache) ''nodes_list'' = Some (7, 1000000 + seconds 5)"
    by (simp add: warm_cache_def machine_defs)
  have fresh: "tasks warm_cache 2 = None"
    by (simp add: warm_cache_def machine_defs)
  have lock: "locks warm_cache ''nodes_list'' = Some \<lparr>locked = False, waiters = []\<rparr>"
    by (simp add: warm_cache_def machine_defs)
  have calls: "fetch_calls warm_cache = [(1, ''nodes_list'')]"
    by (simp add: warm_cache_def machine_defs)
  from expired_entry_not_served [OF entry, of 1 2 5] fresh lock calls entry
  show ?thesis by simp
qed


lemma fetches_of_snoc:
  "fetches_of k (s\<lparr>fetch_calls := fetch_calls s @ [(i, k')]\<rparr>) =
     (if k' = k then fetches_of k s @ [(i, k)] else fetches_of k s)"
  by (simp add: fetches_of_def)















text \<open>
  Each condition is needed. When the entry is invalidated before the waiter resumes,
  when the expiry of the new entry overflows, and when the entry has expired by the
  time the waiter resumes (here with a TTL of 0), the waiter invokes \<^verbatim>\<open>fetch_fn\<close> again.
\<close>

lemma second_fetch_after_invalidate:
  "fetch_calls (run cache_service_init invalidated_before_resume_run) =
     [(1, ''nodes_list''), (2, ''nodes_list'')]"
  by (simp add: machine_defs invalidated_before_resume_run_def)

lemma second_fetch_after_overflow:
  "fetch_calls (run cache_service_init overflowing_ttl_run) =
     [(1, ''nodes_list''), (2, ''nodes_list'')] \<and>
   map_option task_pc (tasks (run cache_service_init overflowing_ttl_run) 1) = Some RaisedOverflowError \<and>
   cache (run cache_service_init overflowing_ttl_run) = []"
  by (simp add: machine_defs overflowing_ttl_run_def)

lemma second_fetch_with_zero_ttl:
  "fetch_calls (run cache_service_init zero_ttl_run) =
     [(1, ''nodes_list''), (2, ''nodes_list'')]"
  by (simp add: machine_defs zero_ttl_run_def)


text \<open>
  C5 (as amended): when the \<^verbatim>\<open>fetch_fn\<close> of a call raises, the cache is unchanged,
  the lock of the key is released and that call raises the exception. Every other
  call stays as it was: a waiter on the lock does not receive the exception. The
  first waiter, once resumed, looks at the cache again and, finding no live entry,
  invokes \<^verbatim>\<open>fetch_fn\<close> itself.
\<close>

theorem fetch_failure_not_cached:
  assumes "tasks s i = Some t" and "task_pc t = Fetching" and "locks s (task_key t) = Some l"
  shows "cache (step s (FetchDone i (Failure e) now)) = cache s \<and>
         fetch_calls (step s (FetchDone i (Failure e) now)) = fetch_calls s \<and>
         locks (step s (FetchDone i (Failure e) now)) (task_key t) = Some (l\<lparr>locked := False\<rparr>) \<and>
         tasks (step s (FetchDone i (Failure e) now)) i = Some (t\<lparr>task_pc := Raised e\<rparr>) \<and>
         (\<forall>j. j \<noteq> i \<longrightarrow> tasks (step s (FetchDone i (Failure e) now)) j = tasks s j) \<and>
         (\<forall>j tj ws now'.
            waiters l = j # ws \<and> j \<noteq> i \<and> tasks s j = Some tj \<and> task_key tj = task_key t \<and>
            task_pc tj = WaitingLock \<and> lookup_live (cache s) (task_key t) now' = None \<longrightarrow>
            tasks (step (step s (FetchDone i (Failure e) now)) (Resume j now')) j
              = Some (tj\<lparr>task_pc := Fetching\<rparr>) \<and>
            fetch_calls (step (step s (FetchDone i (Failure e) now)) (Resume j now'))
              = fetch_calls s @ [(j, task_key t)])"
proof -
  define s' where "s' = step s (FetchDone i (Failure e) now)"
  have s': "s' = s\<lparr>tasks := (tasks s)(i \<mapsto> t\<lparr>task_pc := Raised e\<rparr>),
                    locks := (locks s)(task_key t \<mapsto> l\<lparr>locked := False\<rparr>)\<rparr>"
    using fetch_done_failure [OF assms(1,2), of e now] assms(3) by (simp add: s'_def)
  have w: "tasks (step s' (Resume j now')) j = Some (tj\<lparr>task_pc := Fetching\<rparr>) \<and>
           fetch_calls (step s' (Resume j now')) = fetch_calls s @ [(j, task_key t)]"
    if h: "waiters l = j # ws" "j \<noteq> i" "tasks s j = Some tj" "task_key tj = task_key t"
          "task_pc tj = WaitingLock" "lookup_live (cache s) (task_key t) now' = None"
    for j tj ws now'
  proof -
    have a: "tasks s' j = Some tj" using h(2,3) by (simp add: s')
    have b: "locks s' (task_key tj) = Some (l\<lparr>locked := False\<rparr>)" using h(4) by (simp add: s')
    have c: "waiters (l\<lparr>locked := False\<rparr>) = j # ws" using h(1) by simp
    have d: "\<not> locked (l\<lparr>locked := False\<rparr>)" by simp
    have e: "lookup_live (cache s') (task_key tj) now' = None" using h(4,6) by (simp add: s')
    show ?thesis
      using resume_miss [OF a h(5) b c d e] h(4) by (simp add: s')
  qed
  have base: "cache s' = cache s \<and> fetch_calls s' = fetch_calls s \<and>
         locks s' (task_key t) = Some (l\<lparr>locked := False\<rparr>) \<and>
         tasks s' i = Some (t\<lparr>task_pc := Raised e\<rparr>) \<and>
         (\<forall>j. j \<noteq> i \<longrightarrow> tasks s' j = tasks s j)"
    by (simp add: s')
  from base w show ?thesis
    unfolding s'_def by blast
qed

theorem fetch_failure_not_cached_witness:
  "cache (step fetching_with_waiter (FetchDone 1 (Failure ''timeout'') 2000000)) = [] \<and>
   map_option task_pc (tasks (step fetching_with_waiter (FetchDone 1 (Failure ''timeout'') 2000000)) 1)
     = Some (Raised ''timeout'') \<and>
   map_option task_pc (tasks (step fetching_with_waiter (FetchDone 1 (Failure ''timeout'') 2000000)) 2)
     = Some WaitingLock \<and>
   map_option locked (locks (step fetching_with_waiter (FetchDone 1 (Failure ''timeout'') 2000000))
     ''node_info:/a'') = Some False \<and>
   fetch_calls (step (step fetching_with_waiter (FetchDone 1 (Failure ''timeout'') 2000000))
     (Resume 2 2000001)) = [(1, ''node_info:/a''), (2, ''node_info:/a'')]"
proof -
  let ?t1 = "\<lparr>task_key = ''node_info:/a'', task_ttl = 10, task_pc = Fetching\<rparr> :: (nat, string) task"
  let ?t2 = "\<lparr>task_key = ''node_info:/a'', task_ttl = 10, task_pc = WaitingLock\<rparr> :: (nat, string) task"
  have t1: "tasks fetching_with_waiter 1 = Some ?t1"
    by (simp add: fetching_with_waiter_def machine_defs)
  have t2: "tasks fetching_with_waiter 2 = Some ?t2"
    by (simp add: fetching_with_waiter_def machine_defs)
  have pc: "task_pc ?t1 = Fetching" by simp
  have lk: "locks fetching_with_waiter (task_key ?t1) = Some \<lparr>locked = True, waiters = [2]\<rparr>"
    by (simp add: fetching_with_waiter_def machine_defs)
  have c0: "cache fetching_with_waiter = []" and f0: "fetch_calls fetching_with_waiter = [(1, ''node_info:/a'')]"
    by (simp_all add: fetching_with_waiter_def machine_defs)
  have miss: "lookup_live (cache fetching_with_waiter) (task_key ?t1) 2000001 = None"
    by (simp add: c0 lookup_live_def)
  note T = fetch_failure_not_cached [OF t1 pc lk, of "''timeout''" 2000000]
  from T have "fetch_calls (step (step fetching_with_waiter (FetchDone 1 (Failure ''timeout'') 2000000))
     (Resume 2 2000001)) = fetch_calls fetching_with_waiter @ [(2, task_key ?t1)]"
    using t2 miss by auto
  moreover from T have "tasks (step fetching_with_waiter (FetchDone 1 (Failure ''timeout'') 2000000)) 2
      = tasks fetching_with_waiter 2"
    by auto
  ultimately show ?thesis
    using T t2 c0 f0 by simp
qed

text \<open>
  A waiter that queued behind the failed fetch ends with the value of its own fetch,
  not with the exception of the first.
\<close>

theorem waiter_misses_error_counterexample:
  "map_option task_pc (tasks (run cache_service_init failure_then_success_run) 1)
     = Some (Raised ''timeout'') \<and>
   map_option task_pc (tasks (run cache_service_init (take 3 failure_then_success_run)) 2)
     = Some WaitingLock \<and>
   map_option task_pc (tasks (run cache_service_init failure_then_success_run) 2)
     = Some (Returned 42)"
  by (simp add: machine_defs failure_then_success_run_def)

section \<open>Properties of the collector loop and of subscribing\<close>

lemmas collect_defs =
  notify_def no_interference_def Let_def deque_new_def deque_append_def log_service_init_def
  recorder_def

lemma all_awaited_Nil [simp]: "all_awaited [] r w = w"
  by (simp add: all_awaited_def)

lemma all_awaited_Cons [simp]:
  "all_awaited (e # d) r w = all_awaited d r (after_await w (snd e r w))"
  by (simp add: all_awaited_def)

lemma all_awaited_append: "all_awaited (d @ d') r w = all_awaited d' r (all_awaited d r w)"
  by (simp add: all_awaited_def)

lemma deliver_undisturbed:
  assumes "\<forall>e\<in>set ahead. \<forall>w. snd e r w \<noteq> Blocks"
  shows "deliver (length ahead) (length d) r no_interference d ahead w =
           (Completed, d, all_awaited ahead r w)"
  using assms
proof (induction ahead arbitrary: w)
  case Nil
  then show ?case by simp
next
  case (Cons e rest)
  have rest: "\<forall>e\<in>set rest. \<forall>w. snd e r w \<noteq> Blocks"
    using Cons.prems by simp
  have e: "snd e r w \<noteq> Blocks"
    using Cons.prems by simp
  show ?case
  proof (cases "snd e r w")
    case (Returns w')
    then show ?thesis
      using Cons.IH [OF rest, of w'] by (simp add: no_interference_def after_await_def)
  next
    case (Raises w')
    then show ?thesis
      using Cons.IH [OF rest, of w'] by (simp add: no_interference_def after_await_def)
  next
    case Blocks
    with e show ?thesis by simp
  qed
qed

lemma deliver_stalls:
  assumes "\<forall>e\<in>set before. \<forall>w. snd e r w \<noteq> Blocks"
      and "cb r (all_awaited before r w) = Blocks"
  shows "deliver (length (before @ (sid, cb) # rest)) (length d) r no_interference d
           (before @ (sid, cb) # rest) w =
           (Stalled, d, all_awaited before r w)"
  using assms
proof (induction before arbitrary: w)
  case Nil
  then show ?case by simp
next
  case (Cons e before)
  have before: "\<forall>e\<in>set before. \<forall>w. snd e r w \<noteq> Blocks"
    using Cons.prems(1) by simp
  have e: "snd e r w \<noteq> Blocks"
    using Cons.prems(1) by simp
  show ?case
  proof (cases "snd e r w")
    case (Returns w')
    then have "cb r (all_awaited before r w') = Blocks"
      using Cons.prems(2) by (simp add: after_await_def)
    from Cons.IH [OF before this] Returns show ?thesis
      by (simp add: no_interference_def after_await_def)
  next
    case (Raises w')
    then have "cb r (all_awaited before r w') = Blocks"
      using Cons.prems(2) by (simp add: after_await_def)
    from Cons.IH [OF before this] Raises show ?thesis
      by (simp add: no_interference_def after_await_def)
  next
    case Blocks
    with e show ?thesis by simp
  qed
qed

lemma notify_undisturbed:
  "\<forall>e\<in>set d. \<forall>w. snd e r w \<noteq> Blocks \<Longrightarrow>
   notify d r no_interference w = (Completed, d, all_awaited d r w)"
  unfolding notify_def by (rule deliver_undisturbed)

lemma notify_stalls:
  "\<forall>e\<in>set before. \<forall>w. snd e r w \<noteq> Blocks \<Longrightarrow> cb r (all_awaited before r w) = Blocks \<Longrightarrow>
   notify (before @ (sid, cb) # rest) r no_interference w =
     (Stalled, before @ (sid, cb) # rest, all_awaited before r w)"
  unfolding notify_def by (rule deliver_stalls)

lemma collect_logs_undisturbed:
  assumes "\<forall>e\<in>set (subscribers svc). \<forall>r\<in>set rs. \<forall>w. snd e r w \<noteq> Blocks"
  shows "collect_logs no_interference svc rs w =
           \<lparr>service = svc\<lparr>buffer := foldl deque_append (buffer svc) rs\<rparr>,
            world = foldl (\<lambda>w r. all_awaited (subscribers svc) r w) w rs,
            consumed = length rs, ended = Completed\<rparr>"
  using assms
proof (induction rs arbitrary: svc w)
  case Nil
  then show ?case by simp
next
  case (Cons r rs)
  let ?svc' = "svc\<lparr>buffer := deque_append (buffer svc) r\<rparr>"
  have now: "\<forall>e\<in>set (subscribers svc). \<forall>w. snd e r w \<noteq> Blocks"
    using Cons.prems by simp
  have later: "\<forall>e\<in>set (subscribers ?svc'). \<forall>r\<in>set rs. \<forall>w. snd e r w \<noteq> Blocks"
    using Cons.prems by simp
  have same: "svc\<lparr>buffer := deque_append (buffer svc) r, subscribers := subscribers svc\<rparr> = ?svc'"
    by simp
  show ?case
    using Cons.IH [OF later, of "all_awaited (subscribers svc) r w"]
    by (simp add: notify_undisturbed [OF now] same del: log_service.simps)
qed

text \<open>
  C7 (as amended): as long as no subscription is added or removed while an entry is
  being delivered and every callback returns or raises, every callback of the
  dictionary is awaited once on every entry, in order, whether or not another one has
  raised: the loop takes up from the world the raising callback left, counts nothing,
  keeps the subscription and goes on to append and deliver every later entry. A
  callback that never completes stalls the loop: the callbacks after it are not called
  on the entry.
\<close>

theorem raising_sink_is_skipped:
  "((\<forall>e\<in>set d. \<forall>w. snd e r w \<noteq> Blocks) \<longrightarrow>
      notify d r no_interference w = (Completed, d, all_awaited d r w)) \<and>
   (cb r (all_awaited before r w) = Raises w1 \<longrightarrow>
      all_awaited (before @ (sid, cb) # rest) r w = all_awaited rest r w1) \<and>
   ((\<forall>e\<in>set (subscribers svc). \<forall>r\<in>set rs. \<forall>w. snd e r w \<noteq> Blocks) \<longrightarrow>
      consumed (collect_logs no_interference svc rs w) = length rs \<and>
      ended (collect_logs no_interference svc rs w) = Completed \<and>
      subscribers (service (collect_logs no_interference svc rs w)) = subscribers svc \<and>
      buffer (service (collect_logs no_interference svc rs w)) = foldl deque_append (buffer svc) rs \<and>
      world (collect_logs no_interference svc rs w) =
        foldl (\<lambda>w r. all_awaited (subscribers svc) r w) w rs) \<and>
   ((\<forall>e\<in>set before. \<forall>w. snd e r w \<noteq> Blocks) \<and> cb r (all_awaited before r w) = Blocks \<longrightarrow>
      notify (before @ (sid, cb) # rest) r no_interference w =
        (Stalled, before @ (sid, cb) # rest, all_awaited before r w))"
proof -
  have a: "(\<forall>e\<in>set d. \<forall>w. snd e r w \<noteq> Blocks) \<longrightarrow>
      notify d r no_interference w = (Completed, d, all_awaited d r w)"
    by (simp add: notify_undisturbed)
  have b: "cb r (all_awaited before r w) = Raises w1 \<longrightarrow>
      all_awaited (before @ (sid, cb) # rest) r w = all_awaited rest r w1"
    by (simp add: all_awaited_append after_await_def)
  have c: "(\<forall>e\<in>set (subscribers svc). \<forall>r\<in>set rs. \<forall>w. snd e r w \<noteq> Blocks) \<longrightarrow>
      consumed (collect_logs no_interference svc rs w) = length rs \<and>
      ended (collect_logs no_interference svc rs w) = Completed \<and>
      subscribers (service (collect_logs no_interference svc rs w)) = subscribers svc \<and>
      buffer (service (collect_logs no_interference svc rs w)) = foldl deque_append (buffer svc) rs \<and>
      world (collect_logs no_interference svc rs w) =
        foldl (\<lambda>w r. all_awaited (subscribers svc) r w) w rs"
    by (simp add: collect_logs_undisturbed)
  have d: "(\<forall>e\<in>set before. \<forall>w. snd e r w \<noteq> Blocks) \<and> cb r (all_awaited before r w) = Blocks \<longrightarrow>
      notify (before @ (sid, cb) # rest) r no_interference w =
        (Stalled, before @ (sid, cb) # rest, all_awaited before r w)"
    by (simp add: notify_stalls)
  from a b c d show ?thesis by blast
qed

theorem raising_sink_is_skipped_witness:
  "notify (subscribers service_with_broken_sink) ''r1'' no_interference [] =
     (Completed, subscribers service_with_broken_sink, [(''b'', ''r1'')]) \<and>
   world (collect_logs no_interference service_with_broken_sink [''r1'', ''r2''] []) =
     [(''b'', ''r1''), (''b'', ''r2'')] \<and>
   consumed (collect_logs no_interference service_with_broken_sink [''r1'', ''r2''] []) = 2 \<and>
   notify ([] @ (''a'', stuck_sink) # [(''b'', recorder ''b'')]) ''r1'' no_interference [] =
     (Stalled, [] @ (''a'', stuck_sink) # [(''b'', recorder ''b'')], [])"
proof -
  have completes: "\<forall>e\<in>set (subscribers service_with_broken_sink).
      \<forall>r\<in>set [''r1'', ''r2'']. \<forall>w. snd e r w \<noteq> Blocks"
    by (simp add: service_with_broken_sink_def broken_sink_def recorder_def)
  then have completes1: "\<forall>e\<in>set (subscribers service_with_broken_sink). \<forall>w. snd e ''r1'' w \<noteq> Blocks"
    by simp
  have stuck: "(\<forall>e\<in>set []. \<forall>w. snd e ''r1'' w \<noteq> Blocks) \<and>
      stuck_sink ''r1'' (all_awaited [] ''r1'' []) = Blocks"
    by (simp add: stuck_sink_def)
  note T1 = raising_sink_is_skipped [of "subscribers service_with_broken_sink" "''r1''" "[]"
      stuck_sink "[]" "[]" "''a''" "[(''b'', recorder ''b'')]" service_with_broken_sink "[''r1'', ''r2'']"]
  from T1 completes1 have n: "notify (subscribers service_with_broken_sink) ''r1'' no_interference [] =
      (Completed, subscribers service_with_broken_sink,
       all_awaited (subscribers service_with_broken_sink) ''r1'' [])"
    by blast
  from T1 completes have c: "consumed (collect_logs no_interference service_with_broken_sink [''r1'', ''r2''] []) =
      length [''r1'', ''r2''] \<and>
    world (collect_logs no_interference service_with_broken_sink [''r1'', ''r2''] []) =
      foldl (\<lambda>w r. all_awaited (subscribers service_with_broken_sink) r w) [] [''r1'', ''r2'']"
    by blast
  from T1 stuck have s: "notify ([] @ (''a'', stuck_sink) # [(''b'', recorder ''b'')]) ''r1'' no_interference [] =
      (Stalled, [] @ (''a'', stuck_sink) # [(''b'', recorder ''b'')], all_awaited [] ''r1'' [])"
    by blast
  from n c s show ?thesis
    by (simp add: service_with_broken_sink_def broken_sink_def recorder_def after_await_def)
qed

text \<open>
  The claim as stated fails in three ways. Two drops for subscription \<open>a\<close> leave no
  trace: the buffer, the subscriber ids and the world are those of the run in which
  the callback of \<open>a\<close> returned normally without sending. A sink of \<open>a\<close> that never
  accepts the entry keeps \<open>b\<close> from receiving it and the loop from taking the next
  entry. And when the handler of \<open>b\<close> unsubscribes while the callback of \<open>a\<close> is awaited,
  the iteration raises RuntimeError and the loop ends with one entry taken.
\<close>

theorem no_drop_counter_counterexample:
  "world (collect_logs no_interference service_with_broken_sink [''r1'', ''r2''] []) =
     [(''b'', ''r1''), (''b'', ''r2'')] \<and>
   world (collect_logs no_interference service_with_quiet_sink [''r1'', ''r2''] []) =
     [(''b'', ''r1''), (''b'', ''r2'')] \<and>
   buffer (service (collect_logs no_interference service_with_broken_sink [''r1'', ''r2''] []))
     = buffer (service (collect_logs no_interference service_with_quiet_sink [''r1'', ''r2''] [])) \<and>
   map fst (subscribers (service (collect_logs no_interference service_with_broken_sink [''r1'', ''r2''] [])))
     = map fst (subscribers (service (collect_logs no_interference service_with_quiet_sink [''r1'', ''r2''] []))) \<and>
   ended (collect_logs no_interference service_with_stuck_sink [''r1'', ''r2''] []) = Stalled \<and>
   consumed (collect_logs no_interference service_with_stuck_sink [''r1'', ''r2''] []) = 1 \<and>
   world (collect_logs no_interference service_with_stuck_sink [''r1'', ''r2''] []) = [] \<and>
   ended (collect_logs b_leaves_during_r1 service_with_two_recorders [''r1'', ''r2''] []) = Aborted \<and>
   consumed (collect_logs b_leaves_during_r1 service_with_two_recorders [''r1'', ''r2''] []) = 1 \<and>
   world (collect_logs b_leaves_during_r1 service_with_two_recorders [''r1'', ''r2''] []) = [(''a'', ''r1'')]"
  by (simp add: collect_defs broken_sink_def quiet_sink_def stuck_sink_def
      service_with_broken_sink_def service_with_quiet_sink_def
      service_with_stuck_sink_def service_with_two_recorders_def b_leaves_during_r1_def)

lemma get_recent_positive:
  "0 < n \<Longrightarrow> get_recent svc n = last_n (nat n) (items (buffer svc))"
  by (simp add: get_recent_def last_n_def Let_def)

text \<open>
  C3 (as amended): \<^verbatim>\<open>subscribe(callback)\<close> registers the callback under the new id and
  returns the id; it takes no filter and delivers no backlog. The replay for new
  connections is \<^verbatim>\<open>get_recent(count)\<close>, to be called separately: for \<open>count > 0\<close> it is
  the last \<open>min(count, size)\<close> buffered records in publish order, unfiltered, with
  \<open>count = 100\<close> by default.
\<close>

theorem subscribe_registers_only:
  "fst (subscribe svc i cb) = i \<and>
   buffer (snd (subscribe svc i cb)) = buffer svc \<and>
   map_of (subscribers (snd (subscribe svc i cb))) = (map_of (subscribers svc))(i \<mapsto> cb) \<and>
   (0 < n \<longrightarrow> get_recent svc n = last_n (nat n) (items (buffer svc)) \<and>
              length (get_recent svc n) = min (nat n) (length (items (buffer svc)))) \<and>
   get_recent svc 100 = last_n 100 (items (buffer svc))"
  by (auto simp: subscribe_def update_conv' get_recent_positive last_n_def)

lemma service_after_ABCD_eq:
  "service_after_ABCD =
     \<lparr>buffer = \<lparr>maxlen = 1000, items = [''A'', ''B'', ''C'', ''D'']\<rparr>, subscribers = []\<rparr>"
  by (simp add: service_after_ABCD_def collect_defs)

theorem subscribe_registers_only_witness:
  "get_recent service_after_ABCD 3 = [''B'', ''C'', ''D''] \<and>
   length (get_recent service_after_ABCD 3) = 3 \<and>
   map fst (subscribers (snd (subscribe service_after_ABCD ''s1'' (recorder ''s1'')))) = [''s1'']"
proof -
  have pos: "(0::int) < 3" by simp
  from subscribe_registers_only [of service_after_ABCD "''s1''" "recorder ''s1''" 3] pos
  have "get_recent service_after_ABCD 3 = last_n (nat 3) (items (buffer service_after_ABCD))"
    by blast
  then have "get_recent service_after_ABCD 3 = [''B'', ''C'', ''D'']"
    by (simp add: service_after_ABCD_eq last_n_def)
  then show ?thesis
    by (simp add: subscribe_def service_after_ABCD_eq)
qed

text \<open>
  After A, B, C, D a new subscriber is registered and E is published: the subscriber has
  received E alone, while the replay of the buffer would have been A, B, C, D.
\<close>

theorem no_backlog_on_subscribe_counterexample:
  "get_recent service_after_ABCD 100 = [''A'', ''B'', ''C'', ''D''] \<and>
   world (collect_logs no_interference (snd (subscribe service_after_ABCD ''s1'' (recorder ''s1'')))
            [''E''] [])
     = [(''s1'', ''E'')]"
  by (simp add: service_after_ABCD_eq get_recent_def subscribe_def collect_defs)

section \<open>Properties of the namespace tree\<close>

lemma tally_Tree:
  "tally P (Tree ch ns c a l) = length (filter P ns) + sum_list (map (\<lambda>kt. tally P (snd kt)) ch)"
  by (simp add: tally_def filter_concat length_concat comp_def)

lemma foldl_counters:
  "foldl (\<lambda>(c', a', l') child.
            (c' + count child, a' + activeCount child, l' + lifecycleCount child))
         (c0, a0, l0) ts =
     (c0 + sum_list (map count ts), a0 + sum_list (map activeCount ts),
      l0 + sum_list (map lifecycleCount ts))"
  by (induction ts arbitrary: c0 a0 l0) simp_all

lemma calcCounts_fields:
  "calcCounts (Tree ch ns c a l) =
     Tree (map (\<lambda>kt. (fst kt, calcCounts (snd kt))) ch) ns
       (length ns + sum_list (map (\<lambda>kt. count (calcCounts (snd kt))) ch))
       (length (filter is_active ns) + sum_list (map (\<lambda>kt. activeCount (calcCounts (snd kt))) ch))
       (length (filter is_active_lifecycle ns) +
          sum_list (map (\<lambda>kt. lifecycleCount (calcCounts (snd kt))) ch))"
  by (simp add: Let_def foldl_counters comp_def)

lemma subtree_nodes_calcCounts: "subtree_nodes (calcCounts t) = subtree_nodes t"
proof (induction t rule: calcCounts.induct)
  case (1 ch ns c a l)
  have eq: "map (\<lambda>kt. subtree_nodes (calcCounts (snd kt))) ch = map (\<lambda>kt. subtree_nodes (snd kt)) ch"
    using "1.IH" by (intro map_cong) auto
  show ?case
    by (simp add: calcCounts_fields comp_def eq del: calcCounts.simps)
qed

lemma tally_calcCounts: "tally P (calcCounts t) = tally P t"
  by (simp add: tally_def subtree_nodes_calcCounts)

lemma calcCounts_counts:
  "count (calcCounts t) = tally (\<lambda>n. True) t \<and>
   activeCount (calcCounts t) = tally is_active t \<and>
   lifecycleCount (calcCounts t) = tally is_active_lifecycle t"
proof (induction t rule: calcCounts.induct)
  case (1 ch ns c a l)
  have c: "map (\<lambda>kt. count (calcCounts (snd kt))) ch = map (\<lambda>kt. tally (\<lambda>n. True) (snd kt)) ch"
    using "1.IH" by (intro map_cong) auto
  have a: "map (\<lambda>kt. activeCount (calcCounts (snd kt))) ch = map (\<lambda>kt. tally is_active (snd kt)) ch"
    using "1.IH" by (intro map_cong) auto
  have l: "map (\<lambda>kt. lifecycleCount (calcCounts (snd kt))) ch
         = map (\<lambda>kt. tally is_active_lifecycle (snd kt)) ch"
    using "1.IH" by (intro map_cong) auto
  show ?case
    by (simp add: calcCounts_fields c a l tally_Tree del: calcCounts.simps)
qed

lemma counts_ok_calcCounts: "counts_ok (calcCounts t)"
  using calcCounts_counts [of t]
  by (simp add: counts_ok_def subtree_nodes_calcCounts tally_def)

lemma everywhere_calcCounts: "everywhere counts_ok (calcCounts t)"
proof (induction t rule: calcCounts.induct)
  case (1 ch ns c a l)
  have top: "counts_ok (calcCounts (Tree ch ns c a l))"
    by (rule counts_ok_calcCounts)
  have kids: "list_all (\<lambda>kt. everywhere counts_ok (snd kt))
                (map (\<lambda>kt. (fst kt, calcCounts (snd kt))) ch)"
    using "1.IH" by (auto simp: list_all_iff)
  from top kids show ?case
    unfolding calcCounts_fields by simp
qed

lemma sum_update_some:
  fixes g :: "ns_tree \<Rightarrow> nat"
  shows "map_of ch k = Some t0 \<Longrightarrow>
     sum_list (map (\<lambda>kt. g (snd kt)) (AList.update k t ch)) + g t0 =
     sum_list (map (\<lambda>kt. g (snd kt)) ch) + g t"
  by (induction ch) (auto split: if_splits)

lemma sum_update_none:
  fixes g :: "ns_tree \<Rightarrow> nat"
  shows "map_of ch k = None \<Longrightarrow>
     sum_list (map (\<lambda>kt. g (snd kt)) (AList.update k t ch)) =
     sum_list (map (\<lambda>kt. g (snd kt)) ch) + g t"
  by (induction ch) (auto split: if_splits)

lemma tally_empty_tree [simp]: "tally P empty_tree = 0"
  by (simp add: empty_tree_def tally_def)

lemma tally_insert_node:
  "insert_node path n t = Inr t' \<Longrightarrow> tally P t' = tally P t + (if P n then 1 else 0)"
proof (induction path arbitrary: t t')
  case Nil
  then show ?case by (cases t) (auto simp: tally_Tree)
next
  case (Cons part rest)
  obtain ch ns c a l where t: "t = Tree ch ns c a l" by (cases t)
  show ?case
  proof (cases "map_of ch part")
    case None
    with Cons.prems t obtain u where
      u: "insert_node rest n empty_tree = Inr u" and t': "t' = Tree (AList.update part u ch) ns c a l"
      by (auto simp: get_child_def split: if_splits sum.splits)
    have "tally P u = (if P n then 1 else 0)"
      using Cons.IH [OF u] by simp
    then show ?thesis
      using sum_update_none [OF None, of "tally P" u] by (simp add: t t' tally_Tree)
  next
    case (Some t0)
    with Cons.prems t obtain u where
      u: "insert_node rest n t0 = Inr u" and t': "t' = Tree (AList.update part u ch) ns c a l"
      by (auto simp: get_child_def split: sum.splits)
    have "tally P u = tally P t0 + (if P n then 1 else 0)"
      using Cons.IH [OF u] by simp
    then show ?thesis
      using sum_update_some [OF Some, of "tally P" u] by (simp add: t t' tally_Tree)
  qed
qed

lemma tally_insert_all:
  "insert_all ns t = Inr t' \<Longrightarrow> tally P t' = tally P t + length (filter P ns)"
proof (induction ns arbitrary: t)
  case Nil
  then show ?case by simp
next
  case (Cons n ns)
  then obtain u where u: "insert_node (butlast (parts (name n))) n t = Inr u"
    and rest: "insert_all ns u = Inr t'"
    by (auto split: sum.splits)
  show ?case
    using Cons.IH [OF rest] tally_insert_node [OF u, of P] by simp
qed

lemma insert_node_succeeds:
  "set path \<inter> set object_prototype_names = {} \<Longrightarrow> \<exists>t'. insert_node path n t = Inr t'"
proof (induction path arbitrary: t)
  case Nil
  then show ?case by (cases t) simp
next
  case (Cons part rest)
  obtain ch ns c a l where t: "t = Tree ch ns c a l" by (cases t)
  have part: "part \<notin> set object_prototype_names"
    and rest: "set rest \<inter> set object_prototype_names = {}"
    using Cons.prems by auto
  show ?case
  proof (cases "map_of ch part")
    case None
    obtain u where "insert_node rest n empty_tree = Inr u"
      using Cons.IH [OF rest] by blast
    then show ?thesis
      using None part by (simp add: t get_child_def)
  next
    case (Some t0)
    obtain u where "insert_node rest n t0 = Inr u"
      using Cons.IH [OF rest] by blast
    then show ?thesis
      using Some by (simp add: t get_child_def)
  qed
qed

lemma insert_all_succeeds:
  "\<forall>n\<in>set ns. set (butlast (parts (name n))) \<inter> set object_prototype_names = {} \<Longrightarrow>
   \<exists>t'. insert_all ns t = Inr t'"
proof (induction ns arbitrary: t)
  case Nil
  then show ?case by simp
next
  case (Cons n ns)
  obtain u where u: "insert_node (butlast (parts (name n))) n t = Inr u"
    using insert_node_succeeds [of "butlast (parts (name n))" n t] Cons.prems by auto
  obtain t' where "insert_all ns u = Inr t'"
    using Cons.IH [of u] Cons.prems by auto
  then show ?case
    using u by simp
qed

lemma everywhere_mono:
  "everywhere P t \<Longrightarrow> (\<And>u. P u \<Longrightarrow> Q u) \<Longrightarrow> everywhere Q t"
proof (induction P t rule: everywhere.induct)
  case (1 P ch ns c a l)
  have "list_all (\<lambda>kt. everywhere Q (snd kt)) ch"
    unfolding list_all_iff
  proof
    fix kt assume kt: "kt \<in> set ch"
    then have "everywhere P (snd kt)"
      using "1.prems"(1) by (simp add: list_all_iff)
    then show "everywhere Q (snd kt)"
      using "1.IH" [OF kt] "1.prems"(2) by blast
  qed
  then show ?case
    using "1.prems" by simp
qed

lemma counts_ok_ordered:
  "counts_ok u \<Longrightarrow> lifecycleCount u \<le> activeCount u \<and> activeCount u \<le> count u"
proof -
  assume ok: "counts_ok u"
  have "filter is_active_lifecycle (subtree_nodes u)
      = filter is_active_lifecycle (filter is_active (subtree_nodes u))"
    by (auto simp: is_active_def is_active_lifecycle_def intro: filter_cong)
  then have "length (filter is_active_lifecycle (subtree_nodes u))
      \<le> length (filter is_active (subtree_nodes u))"
    by (metis length_filter_le)
  then show ?thesis
    using ok by (simp add: counts_ok_def)
qed

lemma buildTree_counts:
  assumes "buildTree ns = Inr t"
  shows "everywhere counts_ok t \<and>
         everywhere (\<lambda>u. lifecycleCount u \<le> activeCount u \<and> activeCount u \<le> count u) t \<and>
         count t = length ns \<and>
         activeCount t = length (filter is_active ns) \<and>
         lifecycleCount t = length (filter is_active_lifecycle ns)"
proof -
  from assms obtain t0 where ins: "insert_all ns empty_tree = Inr t0" and t: "t = calcCounts t0"
    by (auto simp: buildTree_def split: sum.splits)
  have ok: "everywhere counts_ok t"
    unfolding t by (rule everywhere_calcCounts)
  have ord: "everywhere (\<lambda>u. lifecycleCount u \<le> activeCount u \<and> activeCount u \<le> count u) t"
    using ok counts_ok_ordered by (rule everywhere_mono)
  have "tally P t0 = length (filter P ns)" for P
    using tally_insert_all [OF ins, of P] by simp
  then have "count t = length ns" "activeCount t = length (filter is_active ns)"
    "lifecycleCount t = length (filter is_active_lifecycle ns)"
    using calcCounts_counts [of t0] by (simp_all add: t)
  with ok ord show ?thesis by simp
qed

lemma buildTree_succeeds:
  "\<forall>n\<in>set ns. set (butlast (parts (name n))) \<inter> set object_prototype_names = {} \<Longrightarrow>
   \<exists>t. buildTree ns = Inr t"
  using insert_all_succeeds [of ns empty_tree] by (auto simp: buildTree_def)

lemma buildTree_three_nodes:
  "\<exists>t. buildTree three_nodes = Inr t \<and> count t = 3 \<and> activeCount t = 2 \<and> lifecycleCount t = 1"
proof -
  have "\<forall>n\<in>set three_nodes. set (butlast (parts (name n))) \<inter> set object_prototype_names = {}"
    by (simp add: three_nodes_def parts_def object_prototype_names_def)
  then obtain t where t: "buildTree three_nodes = Inr t"
    using buildTree_succeeds by blast
  from buildTree_counts [OF t] have "count t = 3 \<and> activeCount t = 2 \<and> lifecycleCount t = 1"
    by (simp add: three_nodes_def is_active_def is_active_lifecycle_def)
  with t show ?thesis by blast
qed

text \<open>
  C9: for every list of nodes \<^verbatim>\<open>buildTree\<close> returns a tree whose counters are right at
  every level. Whenever a tree is returned its counters are right (lemma
  \<open>buildTree_counts\<close>), and one is returned when no namespace part is a property name of
  \<^verbatim>\<open>Object.prototype\<close> (lemma \<open>buildTree_succeeds\<close>). It is not returned for every
  list: for a node in the namespace \<^verbatim>\<open>/constructor\<close> the lookup
  \<^verbatim>\<open>current.children['constructor']\<close> finds the function inherited from
  \<^verbatim>\<open>Object.prototype\<close>, no level is created, and \<^verbatim>\<open>current.nodes.push\<close> throws a
  TypeError.
\<close>

theorem buildTree_throws_on_prototype_name:
  "buildTree [talker] = Inl TypeError"
  by (simp add: buildTree_def talker_def parts_def get_child_def empty_tree_def
      object_prototype_names_def)

end
